theory Spec2Isabelle
  imports Complex_Main "HOL-Library.Word" "HOL-Library.Log_Nat"
begin

section \<open>Python values used by the commands\<close>

text \<open>
  A Python \<^verbatim>\<open>bytes\<close> object is a list of 8-bit words, a Python \<^verbatim>\<open>str\<close> is a list of
  Unicode code points, and a Python \<^verbatim>\<open>int\<close> is an unbounded \<^typ>\<open>int\<close>.
  Every exception the modelled code can raise is a constructor of \<open>error\<close>; a function
  that may raise returns \<open>error + 'a\<close>, with \<open>Inl\<close> for the exception.
\<close>

type_synonym byte = "8 word"
type_synonym bytes = "byte list"
type_synonym str = "nat list"

datatype error =
    ValueError
  | OverflowError
  | StructError
  | UnicodeDecodeError
  | UnicodeEncodeError
  | LookupError
  | AttributeError
  | ConnectionBrokenError
  | UnrecognizedCommandError

subsection \<open>\<^verbatim>\<open>math.sqrt\<close> and \<^verbatim>\<open>int(...)\<close> on its result\<close>

text \<open>
  The largest \<open>r\<close> with \<open>r * r \<le> n\<close>, computed two bits at a time. It is only used to
  say what the correctly rounded square root of a binary64 number is.
\<close>

function isqrt :: "nat \<Rightarrow> nat" where
  "isqrt n =
     (if n < 4 then (if n = 0 then 0 else 1)
      else let r = 2 * isqrt (n div 4)
           in if (r + 1) * (r + 1) \<le> n then r + 1 else r)"
  by pat_completeness auto
termination
  by (relation "measure id") auto

declare isqrt.simps [simp del]

text \<open>
  A finite binary64 value \<open>m / 2 ^ s\<close> is the pair \<open>(m, s)\<close>.

  \<^verbatim>\<open>math.sqrt(n)\<close> converts the integer to binary64 (exact below \<open>2 ^ 53\<close>) and takes the
  IEEE-754 square root, which is correctly rounded: for \<open>n\<close> of bit length \<open>b\<close> the result
  lies in the binade with exponent \<open>(b - 1) div 2\<close>, whose values are the multiples of
  \<open>2 ^ ((b - 1) div 2 - 52)\<close>, and it is the multiple nearest to the exact root (a tie
  is impossible for a square root of an integer). The model is faithful for
  \<open>1 \<le> n < 2 ^ 53\<close>; \<^verbatim>\<open>_is_prime\<close> only calls it with \<open>2 \<le> n\<close>, and the constructor of
  \<^verbatim>\<open>IsPrimeCommand\<close> bounds \<open>n\<close> by \<open>2 ^ 31 - 1\<close>.
\<close>

type_synonym double = "int \<times> nat"

definition math_sqrt :: "int \<Rightarrow> double" where
  "math_sqrt n =
     (let s = nat (52 - (bitlen n - 1) div 2);
          N = nat n * 4 ^ s;
          k = isqrt N
      in (if N \<le> k * k + k then int k else int k + 1, s))"

text \<open>\<^verbatim>\<open>int(x)\<close> on a float truncates towards zero.\<close>

fun int_of_double :: "double \<Rightarrow> int" where
  "int_of_double (m, s) = (if 0 \<le> m then m div 2 ^ s else - ((- m) div 2 ^ s))"

subsection \<open>\<^verbatim>\<open>IsPrimeCommand._is_prime\<close>\<close>

text \<open>
  \<^verbatim>\<open>
  for d in range(2, sqrt_n + 1):
      if n % d == 0:
          return False
  return True
  \<close>
  The loop runs over the list \<open>[2..sqrt_n]\<close> that \<^verbatim>\<open>range(2, sqrt_n + 1)\<close> enumerates.
\<close>

fun is_prime_loop :: "int \<Rightarrow> int list \<Rightarrow> bool" where
  "is_prime_loop n [] = True"
| "is_prime_loop n (d # ds) = (if n mod d = 0 then False else is_prime_loop n ds)"

definition is_prime :: "int \<Rightarrow> bool" where
  "is_prime n =
     (if n < 2 then False
      else let sqrt_n = int_of_double (math_sqrt n)
           in is_prime_loop n [2..sqrt_n])"

subsection \<open>\<^verbatim>\<open>int.from_bytes\<close> and \<^verbatim>\<open>int.to_bytes\<close>, byte order \<^verbatim>\<open>'little'\<close>\<close>

fun from_le :: "bytes \<Rightarrow> int" where
  "from_le [] = 0"
| "from_le (b # bs) = uint b + 256 * from_le bs"

text \<open>
  \<^verbatim>\<open>int.from_bytes(bs, byteorder='little', signed=signed)\<close>: any length is accepted; with
  \<^verbatim>\<open>signed\<close> the most significant bit is the sign (two's complement).
\<close>

definition int_from_bytes :: "bytes \<Rightarrow> bool \<Rightarrow> int" where
  "int_from_bytes bs is_signed =
     (let v = from_le bs
      in if is_signed \<and> 256 ^ length bs \<le> 2 * v then v - 256 ^ length bs else v)"

fun to_le :: "nat \<Rightarrow> int \<Rightarrow> bytes" where
  "to_le 0 n = []"
| "to_le (Suc k) n = word_of_int n # to_le k (n div 256)"

text \<open>
  \<^verbatim>\<open>n.to_bytes(len, 'little', signed=signed)\<close> raises \<^verbatim>\<open>OverflowError\<close> when \<open>n\<close> does not
  fit in \<open>len\<close> bytes.
\<close>

definition int_to_bytes :: "int \<Rightarrow> nat \<Rightarrow> bool \<Rightarrow> error + bytes" where
  "int_to_bytes n len is_signed =
     (if is_signed then
        (if - (256 ^ len) \<le> 2 * n \<and> 2 * n < 256 ^ len then Inr (to_le len n)
         else Inl OverflowError)
      else
        (if 0 \<le> n \<and> n < 256 ^ len then Inr (to_le len n) else Inl OverflowError))"

subsection \<open>\<^verbatim>\<open>struct.pack('<iiii', ...)\<close> and \<^verbatim>\<open>struct.unpack('<iiii', ...)\<close>\<close>

definition fits_i32 :: "int \<Rightarrow> bool" where
  "fits_i32 n \<longleftrightarrow> - (2 ^ 31) \<le> n \<and> n \<le> 2 ^ 31 - 1"

definition struct_pack_iiii :: "int \<Rightarrow> int \<Rightarrow> int \<Rightarrow> int \<Rightarrow> error + bytes" where
  "struct_pack_iiii a b c d =
     (if fits_i32 a \<and> fits_i32 b \<and> fits_i32 c \<and> fits_i32 d
      then Inr (to_le 4 a @ to_le 4 b @ to_le 4 c @ to_le 4 d)
      else Inl StructError)"

definition struct_unpack_iiii :: "bytes \<Rightarrow> error + (int \<times> int \<times> int \<times> int)" where
  "struct_unpack_iiii bs =
     (if length bs \<noteq> 16 then Inl StructError
      else Inr (int_from_bytes (take 4 bs) True,
                int_from_bytes (take 4 (drop 4 bs)) True,
                int_from_bytes (take 4 (drop 8 bs)) True,
                int_from_bytes (take 4 (drop 12 bs)) True))"

subsection \<open>\<^verbatim>\<open>str.encode\<close> and \<^verbatim>\<open>bytes.decode\<close> (UTF-8), \<^verbatim>\<open>strip\<close>, \<^verbatim>\<open>ljust\<close>\<close>

text \<open>
  The UTF-8 encoder meets no error except on a surrogate code point
  (\<open>0xD800\<close> to \<open>0xDFFF\<close>), where it calls the error handler: \<open>on_error\<close> is the exception
  that results. With the default handler (\<^verbatim>\<open>'strict'\<close>) it is \<^verbatim>\<open>UnicodeEncodeError\<close>; with
  \<^verbatim>\<open>errors='skip'\<close>, which names no registered handler, it is \<^verbatim>\<open>LookupError\<close>.
  A code point of a \<^verbatim>\<open>str\<close> is below \<open>0x110000\<close>.
\<close>

definition utf8_encode_char :: "nat \<Rightarrow> bytes option" where
  "utf8_encode_char c =
     (if c < 0x80 then Some [of_nat c]
      else if c < 0x800 then Some [of_nat (0xC0 + c div 64), of_nat (0x80 + c mod 64)]
      else if 0xD800 \<le> c \<and> c \<le> 0xDFFF then None
      else if c < 0x10000 then
        Some [of_nat (0xE0 + c div 4096), of_nat (0x80 + c div 64 mod 64),
              of_nat (0x80 + c mod 64)]
      else
        Some [of_nat (0xF0 + c div 262144), of_nat (0x80 + c div 4096 mod 64),
              of_nat (0x80 + c div 64 mod 64), of_nat (0x80 + c mod 64)])"

fun str_encode :: "error \<Rightarrow> str \<Rightarrow> error + bytes" where
  "str_encode on_error [] = Inr []"
| "str_encode on_error (c # cs) =
     (case utf8_encode_char c of
        None \<Rightarrow> Inl on_error
      | Some bs \<Rightarrow>
          (case str_encode on_error cs of
             Inl e \<Rightarrow> Inl e
           | Inr rest \<Rightarrow> Inr (bs @ rest)))"

definition str_ok :: "str \<Rightarrow> bool" where
  "str_ok s \<longleftrightarrow> list_all (\<lambda>c. c < 0x110000) s"

text \<open>
  The strict UTF-8 decoder: a lead byte fixes the number of continuation bytes and the
  range of the first of them, so that overlong forms, surrogates and values above
  \<open>0x10FFFF\<close> are refused, as are stray continuation bytes and truncated sequences.
\<close>

definition is_cont :: "byte \<Rightarrow> bool" where
  "is_cont b \<longleftrightarrow> 0x80 \<le> unat b \<and> unat b \<le> 0xBF"

definition cont_bits :: "byte \<Rightarrow> nat" where
  "cont_bits b = unat b - 0x80"

definition cons_ok :: "nat \<Rightarrow> error + str \<Rightarrow> error + str" where
  "cons_ok c r = (case r of Inl e \<Rightarrow> Inl e | Inr cs \<Rightarrow> Inr (c # cs))"

fun bytes_decode :: "bytes \<Rightarrow> error + str" where
  "bytes_decode [] = Inr []"
| "bytes_decode (b0 # bs) =
     (let x = unat b0 in
      if x < 0x80 then cons_ok x (bytes_decode bs)
      else if 0xC2 \<le> x \<and> x \<le> 0xDF then
        (case bs of
           b1 # r \<Rightarrow>
             if is_cont b1
             then cons_ok ((x - 0xC0) * 64 + cont_bits b1) (bytes_decode r)
             else Inl UnicodeDecodeError
         | _ \<Rightarrow> Inl UnicodeDecodeError)
      else if 0xE0 \<le> x \<and> x \<le> 0xEF then
        (case bs of
           b1 # b2 # r \<Rightarrow>
             if (if x = 0xE0 then 0xA0 else 0x80) \<le> unat b1
                \<and> unat b1 \<le> (if x = 0xED then 0x9F else 0xBF) \<and> is_cont b2
             then cons_ok ((x - 0xE0) * 4096 + cont_bits b1 * 64 + cont_bits b2)
                    (bytes_decode r)
             else Inl UnicodeDecodeError
         | _ \<Rightarrow> Inl UnicodeDecodeError)
      else if 0xF0 \<le> x \<and> x \<le> 0xF4 then
        (case bs of
           b1 # b2 # b3 # r \<Rightarrow>
             if (if x = 0xF0 then 0x90 else 0x80) \<le> unat b1
                \<and> unat b1 \<le> (if x = 0xF4 then 0x8F else 0xBF) \<and> is_cont b2 \<and> is_cont b3
             then cons_ok ((x - 0xF0) * 262144 + cont_bits b1 * 4096
                           + cont_bits b2 * 64 + cont_bits b3)
                    (bytes_decode r)
             else Inl UnicodeDecodeError
         | _ \<Rightarrow> Inl UnicodeDecodeError)
      else Inl UnicodeDecodeError)"

text \<open>\<^verbatim>\<open>bs.strip(b'\0')\<close> removes the zero bytes at both ends.\<close>

definition strip_nul :: "bytes \<Rightarrow> bytes" where
  "strip_nul bs = rev (dropWhile (\<lambda>b. b = 0) (rev (dropWhile (\<lambda>b. b = 0) bs)))"

text \<open>\<^verbatim>\<open>bs.ljust(width, b'\0')\<close> pads on the right; a longer \<open>bs\<close> is returned as it is.\<close>

definition ljust_nul :: "bytes \<Rightarrow> nat \<Rightarrow> bytes" where
  "ljust_nul bs width = bs @ replicate (width - length bs) 0"

section \<open>The commands\<close>

text \<open>
  The five command classes, and their instances. \<^verbatim>\<open>WhoCommand\<close> holds an optional author,
  \<^verbatim>\<open>BoolCommand\<close> a truth value, \<^verbatim>\<open>IsPrimeCommand\<close> an integer, \<^verbatim>\<open>StatsCommand\<close> the
  four counters \<^verbatim>\<open>numbers_cnt\<close>, \<^verbatim>\<open>primes_cnt\<close>, \<^verbatim>\<open>min_value\<close>, \<^verbatim>\<open>max_value\<close>.
\<close>

datatype cls = WhoCls | BoolCls | IsPrimeCls | FinishSessionCls | StatsCls

datatype command =
    WhoCommand "str option"
  | BoolCommand bool
  | IsPrimeCommand int
  | FinishSessionCommand
  | StatsCommand int int int int

fun cls_of :: "command \<Rightarrow> cls" where
  "cls_of (WhoCommand a) = WhoCls"
| "cls_of (BoolCommand v) = BoolCls"
| "cls_of (IsPrimeCommand n) = IsPrimeCls"
| "cls_of FinishSessionCommand = FinishSessionCls"
| "cls_of (StatsCommand a b c d) = StatsCls"

text \<open>A \<^verbatim>\<open>str\<close> literal of ASCII characters, as its code points.\<close>

definition ascii :: "string \<Rightarrow> str" where
  "ascii s = map of_char s"

fun name :: "cls \<Rightarrow> str" where
  "name WhoCls = ascii ''who''"
| "name BoolCls = ascii ''bool''"
| "name IsPrimeCls = ascii ''isprime''"
| "name FinishSessionCls = ascii ''finishsession''"
| "name StatsCls = ascii ''stats''"

fun data_length :: "cls \<Rightarrow> nat" where
  "data_length WhoCls = 128"
| "data_length BoolCls = 1"
| "data_length IsPrimeCls = 4"
| "data_length FinishSessionCls = 0"
| "data_length StatsCls = 4 * 4"

definition MAX_ALLOWED :: int where
  "MAX_ALLOWED = 2 ^ 31 - 1"

definition MIN_ALLOWED :: int where
  "MIN_ALLOWED = - (2 ^ 31)"

text \<open>\<^verbatim>\<open>IsPrimeCommand.__init__\<close>: the only constructor that checks its argument.\<close>

definition IsPrimeCommand_init :: "int \<Rightarrow> error + command" where
  "IsPrimeCommand_init n =
     (if \<not> (MIN_ALLOWED \<le> n \<and> n \<le> MAX_ALLOWED) then Inl OverflowError
      else Inr (IsPrimeCommand n))"

text \<open>\<^verbatim>\<open>not self.author\<close> holds of \<^verbatim>\<open>None\<close> and of the empty string.\<close>

fun no_author :: "str option \<Rightarrow> bool" where
  "no_author None = True"
| "no_author (Some a) = (a = [])"

subsection \<open>\<^verbatim>\<open>to_bytes\<close>\<close>

fun to_bytes :: "command \<Rightarrow> error + bytes" where
  "to_bytes (WhoCommand None) = Inr (replicate (data_length WhoCls) 0)"
| "to_bytes (WhoCommand (Some a)) =
     (if a = [] then Inr (replicate (data_length WhoCls) 0)
      else case str_encode LookupError a of
             Inl e \<Rightarrow> Inl e
           | Inr enc \<Rightarrow>
               (let author = ljust_nul enc (data_length WhoCls)
                in if length author > data_length WhoCls then Inl ValueError
                   else Inr author))"
| "to_bytes (BoolCommand v) = int_to_bytes (if v then 1 else 0) (data_length BoolCls) False"
| "to_bytes (IsPrimeCommand n) = int_to_bytes n (data_length IsPrimeCls) True"
| "to_bytes FinishSessionCommand = Inr []"
| "to_bytes (StatsCommand numbers primes min_v max_v) =
     struct_pack_iiii numbers primes min_v max_v"

subsection \<open>\<^verbatim>\<open>from_bytes\<close>\<close>

fun from_bytes :: "cls \<Rightarrow> bytes \<Rightarrow> error + command" where
  "from_bytes WhoCls data_bytes =
     (case bytes_decode (strip_nul data_bytes) of
        Inl e \<Rightarrow> Inl e
      | Inr a \<Rightarrow> Inr (WhoCommand (if a = [] then None else Some a)))"
| "from_bytes BoolCls data_bytes =
     (let v = int_from_bytes data_bytes False
      in if v \<notin> set [0, 1] then Inl ValueError else Inr (BoolCommand (v \<noteq> 0)))"
| "from_bytes IsPrimeCls data_bytes = IsPrimeCommand_init (int_from_bytes data_bytes True)"
| "from_bytes FinishSessionCls data_bytes = Inr FinishSessionCommand"
| "from_bytes StatsCls data_bytes =
     (case struct_unpack_iiii data_bytes of
        Inl e \<Rightarrow> Inl e
      | Inr (a, b, c, d) \<Rightarrow> Inr (StatsCommand a b c d))"

text \<open>Encoding a command and decoding the result with the command's own class.\<close>

definition decode_encode :: "command \<Rightarrow> error + command" where
  "decode_encode c =
     (case to_bytes c of Inl e \<Rightarrow> Inl e | Inr bs \<Rightarrow> from_bytes (cls_of c) bs)"

section \<open>The session\<close>

record SessionData =
  author :: str
  session_running :: bool
  numbers_cnt :: int
  primes_cnt :: int
  min_value :: int
  max_value :: int

text \<open>
  \<^verbatim>\<open>SessionData()\<close>. The author is \<^verbatim>\<open>constants.AUTHOR\<close>; the module \<^verbatim>\<open>constants\<close> is
  not among the sources, so the constant is a parameter.
\<close>

definition SessionData_init :: "str \<Rightarrow> SessionData" where
  "SessionData_init AUTHOR =
     \<lparr>author = AUTHOR, session_running = True, numbers_cnt = 0, primes_cnt = 0,
      min_value = MAX_ALLOWED, max_value = MIN_ALLOWED\<rparr>"

text \<open>
  \<^verbatim>\<open>command(session_data)\<close>: the response, \<open>None\<close> when \<^verbatim>\<open>__call__\<close> returns \<^verbatim>\<open>None\<close>, and the
  session data after the call. \<^verbatim>\<open>BoolCommand\<close> and \<^verbatim>\<open>StatsCommand\<close> inherit
  \<^verbatim>\<open>BaseCommand.__call__\<close>, which returns \<^verbatim>\<open>None\<close>.
\<close>

fun call :: "command \<Rightarrow> SessionData \<Rightarrow> command option \<times> SessionData" where
  "call (WhoCommand a) sd =
     (if no_author a then (Some (WhoCommand (Some (author sd))), sd) else (None, sd))"
| "call (IsPrimeCommand n) sd =
     (let sd1 = sd\<lparr>numbers_cnt := numbers_cnt sd + 1\<rparr>;
          sd2 = sd1\<lparr>max_value := max n (max_value sd1)\<rparr>;
          sd3 = sd2\<lparr>min_value := min n (min_value sd2)\<rparr>;
          p = is_prime n;
          sd4 = (if p then sd3\<lparr>primes_cnt := primes_cnt sd3 + 1\<rparr> else sd3)
      in (Some (BoolCommand p), sd4))"
| "call FinishSessionCommand sd =
     (let sd1 = sd\<lparr>session_running := False\<rparr>
      in (Some (StatsCommand (numbers_cnt sd1) (primes_cnt sd1) (min_value sd1) (max_value sd1)),
          sd1))"
| "call (BoolCommand v) sd = (None, sd)"
| "call (StatsCommand a b c d) sd = (None, sd)"

section \<open>The server's session driver\<close>

text \<open>
  The state of \<^verbatim>\<open>CommandServer\<close> while it handles one connection: its \<^verbatim>\<open>_buffer\<close>, what the
  successive calls of \<^verbatim>\<open>conn.recv\<close> are going to return (\<^verbatim>\<open>recv\<close> returns \<^verbatim>\<open>b''\<close> once the
  peer has closed the connection, which is what happens when the list is used up), and
  the messages passed to \<^verbatim>\<open>conn.sendall\<close> so far.
\<close>

record server =
  buffer :: bytes
  inbound :: "bytes list"
  outbound :: "bytes list"

text \<open>Python's slices \<^verbatim>\<open>xs[:n]\<close> and \<^verbatim>\<open>xs[n:]\<close>; a negative \<open>n\<close> counts from the end.\<close>

definition slice_to :: "'a list \<Rightarrow> int \<Rightarrow> 'a list" where
  "slice_to xs n = (if 0 \<le> n then take (nat n) xs else take (length xs - nat (- n)) xs)"

definition slice_from :: "'a list \<Rightarrow> int \<Rightarrow> 'a list" where
  "slice_from xs n = (if 0 \<le> n then drop (nat n) xs else drop (length xs - nat (- n)) xs)"

text \<open>
  The loop of \<^verbatim>\<open>_recv\<close>:
  \<^verbatim>\<open>
  while len(self._buffer) < n:
      buffer = conn.recv(self.RECV_BUFFER_SIZE)
      if not buffer:
          raise ConnectionBrokenError
      self._buffer += buffer
  \<close>
  The result is whether the loop ended without the exception, the buffer and what is
  left to receive.
\<close>

fun recv_fill :: "int \<Rightarrow> bytes \<Rightarrow> bytes list \<Rightarrow> bool \<times> bytes \<times> bytes list" where
  "recv_fill n buf [] = (\<not> int (length buf) < n, buf, [])"
| "recv_fill n buf (chunk # chunks) =
     (if int (length buf) < n then
        (if chunk = [] then (False, buf, chunks) else recv_fill n (buf @ chunk) chunks)
      else (True, buf, chunk # chunks))"

definition recv :: "int \<Rightarrow> server \<Rightarrow> (error + bytes) \<times> server" where
  "recv n st =
     (case recv_fill n (buffer st) (inbound st) of
        (False, buf, chunks) \<Rightarrow> (Inl ConnectionBrokenError, st\<lparr>buffer := buf, inbound := chunks\<rparr>)
      | (True, buf, chunks) \<Rightarrow>
          (Inr (slice_to buf n), st\<lparr>buffer := slice_from buf n, inbound := chunks\<rparr>))"

definition MESSAGE_HEADER_SIZE_LENGTH :: nat where
  "MESSAGE_HEADER_SIZE_LENGTH = 1"

definition commands_decode_table :: "str \<rightharpoonup> cls" where
  "commands_decode_table =
     map_of [(name WhoCls, WhoCls), (name IsPrimeCls, IsPrimeCls),
             (name FinishSessionCls, FinishSessionCls)]"

text \<open>
  \<^verbatim>\<open>_receive_message\<close>: \<open>Inr None\<close> is the empty message, on which the method returns
  \<^verbatim>\<open>None\<close>. An exception of \<^verbatim>\<open>from_bytes\<close> is passed on as it is.
\<close>

definition receive_message :: "server \<Rightarrow> (error + command option) \<times> server" where
  "receive_message st =
     (case recv (int MESSAGE_HEADER_SIZE_LENGTH) st of
        (Inl e, st1) \<Rightarrow> (Inl e, st1)
      | (Inr header, st1) \<Rightarrow>
          (let header_length = int_from_bytes header False
           in if header_length = int MESSAGE_HEADER_SIZE_LENGTH then (Inr None, st1)
              else case recv (header_length - int MESSAGE_HEADER_SIZE_LENGTH) st1 of
                     (Inl e, st2) \<Rightarrow> (Inl e, st2)
                   | (Inr name_bytes, st2) \<Rightarrow>
                       (case bytes_decode name_bytes of
                          Inl e \<Rightarrow> (Inl UnrecognizedCommandError, st2)
                        | Inr command_name \<Rightarrow>
                            (case commands_decode_table command_name of
                               None \<Rightarrow> (Inl UnrecognizedCommandError, st2)
                             | Some command_type \<Rightarrow>
                                 (case recv (int (data_length command_type)) st2 of
                                    (Inl e, st3) \<Rightarrow> (Inl e, st3)
                                  | (Inr command_data, st3) \<Rightarrow>
                                      (case from_bytes command_type command_data of
                                         Inl e \<Rightarrow> (Inl e, st3)
                                       | Inr command \<Rightarrow> (Inr (Some command), st3)))))))"

text \<open>
  \<^verbatim>\<open>_send_command\<close>. Its argument is what \<^verbatim>\<open>command(session_data)\<close> returned; on \<^verbatim>\<open>None\<close> the
  attribute access \<^verbatim>\<open>command.name\<close> raises \<^verbatim>\<open>AttributeError\<close>.
\<close>

definition send_command :: "command option \<Rightarrow> server \<Rightarrow> (error + unit) \<times> server" where
  "send_command response st =
     (case response of
        None \<Rightarrow> (Inl AttributeError, st)
      | Some command \<Rightarrow>
          (case str_encode UnicodeEncodeError (name (cls_of command)) of
             Inl e \<Rightarrow> (Inl UnrecognizedCommandError, st)
           | Inr encoded_command_name \<Rightarrow>
               (let header_length = MESSAGE_HEADER_SIZE_LENGTH + length encoded_command_name
                in case int_to_bytes (int header_length) MESSAGE_HEADER_SIZE_LENGTH False of
                     Inl e \<Rightarrow> (Inl e, st)
                   | Inr h \<Rightarrow>
                       (let header = h @ encoded_command_name
                        in case to_bytes command of
                             Inl e \<Rightarrow> (Inl e, st)
                           | Inr data \<Rightarrow>
                               (Inr (), st\<lparr>outbound := outbound st @ [header @ data]\<rparr>)))))"

text \<open>
  One pass through the body of the loop of \<^verbatim>\<open>handle_connection\<close>: \<open>Inl e\<close> when the
  exception \<open>e\<close> leaves the loop, \<open>Inr ()\<close> when the loop goes on to test
  \<^verbatim>\<open>session_data.session_running\<close> again (after \<^verbatim>\<open>continue\<close> or at the end of the body).
\<close>

definition handle_step ::
  "SessionData \<Rightarrow> server \<Rightarrow> (error + unit) \<times> SessionData \<times> server" where
  "handle_step sd st =
     (case receive_message st of
        (Inl e, st1) \<Rightarrow>
          (if e = UnrecognizedCommandError then (Inr (), sd, st1) else (Inl e, sd, st1))
      | (Inr None, st1) \<Rightarrow> (Inr (), sd, st1)
      | (Inr (Some command), st1) \<Rightarrow>
          (case call command sd of
             (response_command, sd1) \<Rightarrow>
               (case send_command response_command st1 of
                  (Inl e, st2) \<Rightarrow> (Inl e, sd1, st2)
                | (Inr u, st2) \<Rightarrow> (Inr (), sd1, st2))))"

text \<open>The bytes still to be consumed: every pass of the loop that goes on takes one.\<close>

definition pending :: "server \<Rightarrow> nat" where
  "pending st = length (buffer st) + sum_list (map length (inbound st))"

subsection \<open>The loop of \<^verbatim>\<open>handle_connection\<close> ends\<close>

lemma recv_fill_total:
  "recv_fill n buf chunks = (ok, buf', chunks') \<Longrightarrow>
     length buf' + sum_list (map length chunks') = length buf + sum_list (map length chunks)"
  by (induction chunks arbitrary: buf) (auto split: if_splits)

lemma recv_fill_enough:
  "recv_fill n buf chunks = (True, buf', chunks') \<Longrightarrow> \<not> int (length buf') < n"
  by (induction chunks arbitrary: buf) (auto split: if_splits)

lemma length_slice_from: "length (slice_from xs n) \<le> length xs"
  by (simp add: slice_from_def)

lemma recv_pending_le: "pending (snd (recv n st)) \<le> pending st"
proof -
  obtain ok buf chunks where f: "recv_fill n (buffer st) (inbound st) = (ok, buf, chunks)"
    by (metis prod_cases3)
  from recv_fill_total[OF f] length_slice_from[of buf n] show ?thesis
    by (cases ok) (simp_all add: recv_def f pending_def)
qed

lemma recv_length:
  assumes "recv n st = (Inr bs, st1)" "0 \<le> n"
  shows "int (length bs) = n"
proof -
  obtain ok buf chunks where f: "recv_fill n (buffer st) (inbound st) = (ok, buf, chunks)"
    by (metis prod_cases3)
  with assms have ok: "ok" and bs: "bs = slice_to buf n"
    by (cases ok; simp add: recv_def)+
  have "\<not> int (length buf) < n" using recv_fill_enough f ok by simp
  then show ?thesis
    using assms(2) by (simp add: bs slice_to_def)
qed

lemma recv_pending_less:
  assumes "recv n st = (Inr bs, st1)" "0 < n"
  shows "pending st1 < pending st"
proof -
  obtain ok buf chunks where f: "recv_fill n (buffer st) (inbound st) = (ok, buf, chunks)"
    by (metis prod_cases3)
  with assms have ok: "ok" and st1: "st1 = st\<lparr>buffer := slice_from buf n, inbound := chunks\<rparr>"
    by (cases ok; simp add: recv_def)+
  have "\<not> int (length buf) < n" using recv_fill_enough f ok by simp
  then have "length (slice_from buf n) < length buf"
    using assms(2) by (simp add: slice_from_def)
  with recv_fill_total[OF f] show ?thesis
    by (simp add: st1 pending_def)
qed

lemma send_command_pending: "pending (snd (send_command r st)) = pending st"
  by (simp add: send_command_def pending_def Let_def split: option.splits sum.splits)

lemma receive_message_pending:
  assumes "receive_message st = (r, st1)" "r \<noteq> Inl ConnectionBrokenError"
  shows "pending st1 < pending st"
proof -
  obtain h sa where a: "recv (int MESSAGE_HEADER_SIZE_LENGTH) st = (h, sa)" by fastforce
  show ?thesis
  proof (cases h)
    case (Inl e)
    with a assms show ?thesis
      by (auto simp: receive_message_def recv_def split: prod.splits bool.splits)
  next
    case (Inr header)
    have 1: "pending sa < pending st"
      using recv_pending_less[of _ st header sa] a Inr by (simp add: MESSAGE_HEADER_SIZE_LENGTH_def)
    have 2: "pending (snd (recv n sa)) \<le> pending sa" for n by (rule recv_pending_le)
    have 3: "pending (snd (recv m (snd (recv n sa)))) \<le> pending sa" for n m
      using recv_pending_le[of m "snd (recv n sa)"] 2[of n] by linarith
    have "pending st1 \<le> pending sa"
      using assms(1) 2 3 unfolding receive_message_def a Inr
      by (auto simp: Let_def split: if_splits prod.splits sum.splits option.splits)
         (metis snd_conv)+
    with 1 show ?thesis by linarith
  qed
qed

lemma handle_step_pending:
  assumes "handle_step sd st = (Inr u, sd1, st1)"
  shows "pending st1 < pending st"
proof -
  obtain r sa where a: "receive_message st = (r, sa)" by fastforce
  have r: "r \<noteq> Inl ConnectionBrokenError"
    using assms by (auto simp: handle_step_def a split: prod.splits sum.splits option.splits if_splits)
  have "pending st1 = pending sa"
    using assms send_command_pending
    by (auto simp: handle_step_def a split: prod.splits sum.splits option.splits if_splits)
       (metis snd_conv)
  with receive_message_pending[OF a r] show ?thesis by simp
qed

text \<open>
  \<^verbatim>\<open>
  while session_data.session_running:
      ...
  \<close>
  The result is the exception that left the loop, if any, the session data and the
  server.
\<close>

function handle_loop :: "SessionData \<Rightarrow> server \<Rightarrow> (error + unit) \<times> SessionData \<times> server" where
  "handle_loop sd st =
     (if \<not> session_running sd then (Inr (), sd, st)
      else case handle_step sd st of
             (Inl e, sd1, st1) \<Rightarrow> (Inl e, sd1, st1)
           | (Inr u, sd1, st1) \<Rightarrow> handle_loop sd1 st1)"
  by pat_completeness auto
termination
proof (relation "measure (\<lambda>(sd, st). pending st)")
  show "wf (measure (\<lambda>(sd, st). pending st))" by simp
next
  fix sd st x y u z sd1 st1
  assume "(x, y) = handle_step sd st" "x = Inr u" "(sd1, st1) = y"
  then have "handle_step sd st = (Inr u, sd1, st1)" by simp
  then show "((sd1, st1), (sd, st)) \<in> measure (\<lambda>(sd, st). pending st)"
    by (simp add: handle_step_pending)
qed

declare handle_loop.simps [simp del]

text \<open>
  \<^verbatim>\<open>handle_connection\<close>: a fresh \<^verbatim>\<open>SessionData\<close>, an empty buffer, then the loop. The result
  is the exception that ended the session, if any, the session data and the server.
\<close>

definition handle_connection ::
  "str \<Rightarrow> bytes list \<Rightarrow> (error + unit) \<times> SessionData \<times> server" where
  "handle_connection AUTHOR chunks =
     handle_loop (SessionData_init AUTHOR) \<lparr>buffer = [], inbound = chunks, outbound = []\<rparr>"

text \<open>
  The message \<^verbatim>\<open>who("X")\<close> on the wire: the header byte 4, the name \<^verbatim>\<open>who\<close> and the author
  \<^verbatim>\<open>X\<close> padded to 128 bytes.
\<close>

definition who_X :: bytes where
  "who_X = [4, 0x77, 0x68, 0x6F, 0x58] @ replicate 127 0"

section \<open>The primality check\<close>

lemma isqrt_correct: "isqrt n * isqrt n \<le> n \<and> n < (isqrt n + 1) * (isqrt n + 1)"
proof (induction n rule: isqrt.induct)
  case (1 n)
  show ?case
  proof (cases "n < 4")
    case True
    then show ?thesis by (subst (1 2 3 4) isqrt.simps) auto
  next
    case False
    define q where "q = isqrt (n div 4)"
    have ih: "q * q \<le> n div 4" "n div 4 < (q + 1) * (q + 1)"
      using 1 False by (simp_all add: q_def)
    have lo: "4 * (q * q) \<le> n" using ih(1) by linarith
    have "n div 4 + 1 \<le> (q + 1) * (q + 1)" using ih(2) by linarith
    then have "4 * (n div 4 + 1) \<le> 4 * ((q + 1) * (q + 1))" by simp
    moreover have "n < 4 * (n div 4 + 1)" by presburger
    ultimately have hi: "n < 4 * ((q + 1) * (q + 1))" by (rule less_le_trans[rotated])
    have eq: "isqrt n = (if (2 * q + 1) * (2 * q + 1) \<le> n then 2 * q + 1 else 2 * q)"
      using False by (subst isqrt.simps) (simp add: q_def Let_def)
    show ?thesis
      using lo hi by (auto simp: eq algebra_simps)
  qed
qed

lemma sq_mono_nat: "(a::nat) \<le> b \<Longrightarrow> a * a \<le> b * b"
  using mult_le_mono by blast

text \<open>The floor of the real square root is \<open>isqrt\<close>.\<close>

lemma floor_sqrt_isqrt:
  assumes n: "0 \<le> n"
  shows "\<lfloor>sqrt (real_of_int n)\<rfloor> = int (isqrt (nat n))"
proof -
  let ?k = "isqrt (nat n)"
  have k: "?k * ?k \<le> nat n" "nat n < (?k + 1) * (?k + 1)" using isqrt_correct by auto
  have 1: "real ?k \<le> sqrt (real_of_int n)"
  proof (rule real_le_rsqrt)
    have "real (?k * ?k) \<le> real (nat n)" using k(1) by (simp only: of_nat_le_iff)
    then show "(real ?k)\<^sup>2 \<le> real_of_int n" using n by (simp add: power2_eq_square)
  qed
  have 2: "sqrt (real_of_int n) < real ?k + 1"
  proof (rule real_less_lsqrt)
    show "0 \<le> real ?k + 1" by simp
    have "real (nat n) < real ((?k + 1) * (?k + 1))" using k(2) by (simp only: of_nat_less_iff)
    then show "real_of_int n < (real ?k + 1)\<^sup>2"
      using n by (simp add: power2_eq_square algebra_simps)
  qed
  show ?thesis using 1 2 by (simp add: floor_eq_iff)
qed

text \<open>
  Truncating the correctly rounded binary64 root: the rounding never reaches the next
  integer as long as the root is smaller than the scale \<open>2 ^ s\<close> of the mantissa.
\<close>

lemma rounded_sqrt_div:
  fixes n s :: nat
  defines "N \<equiv> n * 4 ^ s"
  defines "k \<equiv> isqrt N"
  assumes small: "isqrt n + 1 \<le> 2 ^ s"
  shows "(if N \<le> k * k + k then k else k + 1) div 2 ^ s = isqrt n"
proof -
  define r where "r = isqrt n"
  define T where "T = (r + 1) * 2 ^ s"
  have p4: "(4::nat) ^ s = 2 ^ s * 2 ^ s"
    by (metis mult_2 numeral_Bit0 power_mult_distrib)
  have r: "r * r \<le> n" "n + 1 \<le> (r + 1) * (r + 1)"
    using isqrt_correct[of n] by (simp_all add: r_def)
  have k: "k * k \<le> N" "N < (k + 1) * (k + 1)"
    using isqrt_correct[of N] by (simp_all add: k_def)
  have "(r * r) * 4 ^ s \<le> n * 4 ^ s" using r(1) by simp
  then have lo: "(r * 2 ^ s) * (r * 2 ^ s) \<le> N"
    by (simp add: N_def p4 mult_ac)
  have "(n + 1) * 4 ^ s \<le> ((r + 1) * (r + 1)) * 4 ^ s" using r(2) by simp
  then have hi: "N + 4 ^ s \<le> T * T"
    by (simp add: N_def T_def p4 algebra_simps)
  have k_lo: "r * 2 ^ s \<le> k"
  proof (rule ccontr)
    assume "\<not> r * 2 ^ s \<le> k"
    then have "k + 1 \<le> r * 2 ^ s" by simp
    from sq_mono_nat[OF this] lo k(2) show False by linarith
  qed
  have k_hi: "k < T"
  proof (rule ccontr)
    assume "\<not> k < T"
    then have "T \<le> k" by simp
    from sq_mono_nat[OF this] hi k(1) have "N + 4 ^ s \<le> N" by linarith
    then show False by simp
  qed
  have up: "k + 1 < T" if gt: "\<not> N \<le> k * k + k"
  proof (rule ccontr)
    assume "\<not> k + 1 < T"
    with k_hi have T: "T = k + 1" by simp
    have "T * T = k * k + k + T" by (simp add: T)
    with gt hi have "4 ^ s < T" by linarith
    then have "2 ^ s * 2 ^ s < (r + 1) * 2 ^ s" by (simp add: p4 T_def)
    then have "2 ^ s < r + 1" by (simp only: mult_less_cancel2)
    with small show False by (simp add: r_def)
  qed
  have "m div 2 ^ s = r" if "r * 2 ^ s \<le> m" "m < T" for m
    using that by (intro div_nat_eqI) (simp_all add: T_def mult.commute)
  then show ?thesis using k_lo k_hi up by (auto simp: r_def)
qed

lemma isqrt_bound: "n < 2 ^ 32 \<Longrightarrow> isqrt n < 2 ^ 16"
proof (rule ccontr)
  assume n: "n < 2 ^ 32" and "\<not> isqrt n < 2 ^ 16"
  then have "(2::nat) ^ 16 \<le> isqrt n" by simp
  from sq_mono_nat[OF this] isqrt_correct[of n] have "(2::nat) ^ 16 * 2 ^ 16 \<le> n" by linarith
  with n show False by simp
qed

text \<open>On the integers an \<^verbatim>\<open>IsPrimeCommand\<close> can hold, \<^verbatim>\<open>int(math.sqrt(n))\<close> is exact.\<close>

lemma int_sqrt_exact:
  assumes "1 \<le> n" "n < 2 ^ 31"
  shows "int_of_double (math_sqrt n) = int (isqrt (nat n))"
proof -
  define s where "s = nat (52 - (bitlen n - 1) div 2)"
  have "bitlen n \<le> 31" using assms by (simp add: bitlen_le_iff_power)
  then have s: "37 \<le> s" unfolding s_def by linarith
  have "nat n < 2 ^ 32" using assms by (simp add: nat_less_iff)
  then have "isqrt (nat n) + 1 \<le> 2 ^ 16" using isqrt_bound by fastforce
  also have "(2::nat) ^ 16 \<le> 2 ^ s" using s by (intro power_increasing) simp_all
  finally have small: "isqrt (nat n) + 1 \<le> 2 ^ s" .
  define N where "N = nat n * 4 ^ s"
  define M where "M = (if N \<le> isqrt N * isqrt N + isqrt N then isqrt N else isqrt N + 1)"
  have M: "M div 2 ^ s = isqrt (nat n)"
    unfolding M_def N_def by (rule rounded_sqrt_div[OF small])
  have "math_sqrt n = (int M, s)"
    by (simp add: math_sqrt_def Let_def s_def [symmetric] N_def [symmetric] M_def)
  then have "int_of_double (math_sqrt n) = int M div 2 ^ s" by simp
  also have "\<dots> = int (M div 2 ^ s)" by (simp add: zdiv_int)
  finally show ?thesis by (simp only: M)
qed

lemma is_prime_loop_iff: "is_prime_loop n ds \<longleftrightarrow> (\<forall>d\<in>set ds. n mod d \<noteq> 0)"
  by (induction ds) auto

lemma is_prime_unfold:
  assumes "2 \<le> n" "n < 2 ^ 31"
  shows "is_prime n = is_prime_loop n [2..int (isqrt (nat n))]"
  using assms by (simp add: is_prime_def Let_def int_sqrt_exact)

lemma is_prime_small: "n < 2 \<Longrightarrow> \<not> is_prime n"
  by (simp add: is_prime_def)

lemma is_prime_2345: "is_prime 2" "is_prime 3" "\<not> is_prime 4" "is_prime 5"
  by (simp_all add: is_prime_unfold isqrt.simps upto.simps)

text \<open>
  C1. For every integer \<open>n\<close> from \<open>-2^31\<close> to \<open>2^31 - 1\<close>, \<^verbatim>\<open>IsPrimeCommand._is_prime\<close> returns
  true exactly when \<open>n \<ge> 2\<close> and \<open>n\<close> has no divisor \<open>d\<close> with \<open>2 \<le> d \<le> floor (sqrt n)\<close>;
  in particular it returns false for every \<open>n < 2\<close>, true for 2 and 3 and false for 4.
\<close>

theorem is_prime_trial_division:
  assumes "- (2 ^ 31) \<le> n" and "n \<le> 2 ^ 31 - 1"
  shows "(is_prime n \<longleftrightarrow>
            2 \<le> n \<and> \<not> (\<exists>d. 2 \<le> d \<and> d \<le> \<lfloor>sqrt (real_of_int n)\<rfloor> \<and> d dvd n))
         \<and> (n < 2 \<longrightarrow> \<not> is_prime n)
         \<and> is_prime 2 \<and> is_prime 3 \<and> \<not> is_prime 4"
proof -
  have main: "is_prime n \<longleftrightarrow>
      2 \<le> n \<and> \<not> (\<exists>d. 2 \<le> d \<and> d \<le> \<lfloor>sqrt (real_of_int n)\<rfloor> \<and> d dvd n)"
  proof (cases "n < 2")
    case True
    then show ?thesis using is_prime_small by simp
  next
    case False
    then have n: "2 \<le> n" "n < 2 ^ 31" using assms by simp_all
    have fl: "\<lfloor>sqrt (real_of_int n)\<rfloor> = int (isqrt (nat n))"
      using n by (intro floor_sqrt_isqrt) simp
    show ?thesis
      using n by (auto simp: is_prime_unfold is_prime_loop_iff fl dvd_eq_mod_eq_0)
  qed
  with is_prime_small is_prime_2345 show ?thesis by blast
qed

theorem is_prime_trial_division_witness:
  "- (2 ^ 31) \<le> (9::int) \<and> (9::int) \<le> 2 ^ 31 - 1
   \<and> (is_prime 9 \<longleftrightarrow>
        2 \<le> (9::int) \<and> \<not> (\<exists>d. 2 \<le> d \<and> d \<le> \<lfloor>sqrt (real_of_int 9)\<rfloor> \<and> d dvd (9::int)))"
proof -
  have h1: "- (2 ^ 31) \<le> (9::int)" by simp
  have h2: "(9::int) \<le> 2 ^ 31 - 1" by simp
  from is_prime_trial_division[OF h1 h2] h1 h2 show ?thesis by blast
qed

section \<open>Executing commands on the session data\<close>

text \<open>
  C3. From a fresh session state (running, both counters 0, \<open>min_value = 2^31 - 1\<close>,
  \<open>max_value = -2^31\<close>), executing \<^verbatim>\<open>isprime(2)\<close>, \<^verbatim>\<open>isprime(3)\<close>, \<^verbatim>\<open>isprime(4)\<close>, \<^verbatim>\<open>isprime(5)\<close>
  and then \<^verbatim>\<open>finishsession\<close> returns \<^verbatim>\<open>stats(4, 3, 2, 5)\<close> and leaves the session not running.
\<close>

theorem session_accumulation:
  "SessionData_init AUTHOR =
     \<lparr>author = AUTHOR, session_running = True, numbers_cnt = 0, primes_cnt = 0,
      min_value = 2 ^ 31 - 1, max_value = - (2 ^ 31)\<rparr>
   \<and> call FinishSessionCommand
        (snd (call (IsPrimeCommand 5)
          (snd (call (IsPrimeCommand 4)
            (snd (call (IsPrimeCommand 3)
              (snd (call (IsPrimeCommand 2) (SessionData_init AUTHOR)))))))))
     = (Some (StatsCommand 4 3 2 5),
        \<lparr>author = AUTHOR, session_running = False, numbers_cnt = 4, primes_cnt = 3,
         min_value = 2, max_value = 5\<rparr>)"
  by (simp add: SessionData_init_def MAX_ALLOWED_def MIN_ALLOWED_def Let_def is_prime_2345)

theorem session_accumulation_witness:
  "call FinishSessionCommand
     (snd (call (IsPrimeCommand 5)
       (snd (call (IsPrimeCommand 4)
         (snd (call (IsPrimeCommand 3)
           (snd (call (IsPrimeCommand 2) (SessionData_init [])))))))))
   = (Some (StatsCommand 4 3 2 5),
      \<lparr>author = [], session_running = False, numbers_cnt = 4, primes_cnt = 3,
       min_value = 2, max_value = 5\<rparr>)"
  using session_accumulation[of "[]"] by (rule conjunct2)

text \<open>
  C7. Executing a \<^verbatim>\<open>who\<close> command changes no field of the session data. Without an author
  (\<^verbatim>\<open>None\<close> or the empty string) it returns a new \<^verbatim>\<open>who\<close> with the session's author; with
  an author it returns no response.
\<close>

theorem who_call_frame:
  "snd (call (WhoCommand a) sd) = sd
   \<and> (a = None \<or> a = Some [] \<longrightarrow>
        fst (call (WhoCommand a) sd) = Some (WhoCommand (Some (author sd))))
   \<and> (a \<noteq> None \<and> a \<noteq> Some [] \<longrightarrow> fst (call (WhoCommand a) sd) = None)"
  by (cases a) auto

theorem who_call_frame_witness:
  "call (WhoCommand None) (SessionData_init [65])
     = (Some (WhoCommand (Some [65])), SessionData_init [65])
   \<and> call (WhoCommand (Some [66])) (SessionData_init [65]) = (None, SessionData_init [65])"
proof -
  have a: "author (SessionData_init [65]) = [65]" by (simp add: SessionData_init_def)
  have b: "Some [66::nat] \<noteq> None \<and> Some [66::nat] \<noteq> Some []" by simp
  from who_call_frame[of None "SessionData_init [65]"]
       who_call_frame[of "Some [66]" "SessionData_init [65]"] a b
  show ?thesis by (simp add: prod_eq_iff)
qed

text \<open>
  C10. Every command execution keeps \<open>0 \<le> primes_cnt \<le> numbers_cnt\<close> and never decreases
  either counter; the fresh session data satisfy the invariant.
\<close>

theorem counters_invariant:
  "(0 \<le> primes_cnt (SessionData_init AUTHOR)
      \<and> primes_cnt (SessionData_init AUTHOR) \<le> numbers_cnt (SessionData_init AUTHOR))
   \<and> (0 \<le> primes_cnt sd \<and> primes_cnt sd \<le> numbers_cnt sd \<longrightarrow>
        0 \<le> primes_cnt (snd (call c sd))
        \<and> primes_cnt (snd (call c sd)) \<le> numbers_cnt (snd (call c sd)))
   \<and> numbers_cnt sd \<le> numbers_cnt (snd (call c sd))
   \<and> primes_cnt sd \<le> primes_cnt (snd (call c sd))"
  by (cases c) (auto simp: SessionData_init_def Let_def)

theorem counters_invariant_witness:
  "0 \<le> primes_cnt (SessionData_init [])
   \<and> primes_cnt (SessionData_init []) \<le> numbers_cnt (SessionData_init [])
   \<and> 0 \<le> primes_cnt (snd (call (IsPrimeCommand 7) (SessionData_init [])))
   \<and> primes_cnt (snd (call (IsPrimeCommand 7) (SessionData_init [])))
       \<le> numbers_cnt (snd (call (IsPrimeCommand 7) (SessionData_init [])))"
  using counters_invariant[of "[]" "SessionData_init []" "IsPrimeCommand 7"] by blast

section \<open>Decoding\<close>

lemma byte_0_1: "(uint (b::byte) = 0 \<longleftrightarrow> b = 0) \<and> (uint b = 1 \<longleftrightarrow> b = 1)"
  by (simp add: word_uint_eq_iff)

text \<open>
  C8. Decoding a one-byte \<^verbatim>\<open>bool\<close> payload succeeds exactly when the byte is 0 or 1, with the
  value false respectively true; on any other byte it raises \<^verbatim>\<open>ValueError\<close>.
\<close>

theorem bool_from_bytes_byte:
  "from_bytes BoolCls [b] =
     (if b = 0 then Inr (BoolCommand False)
      else if b = 1 then Inr (BoolCommand True)
      else Inl ValueError)"
  using byte_0_1[of b] by (auto simp: int_from_bytes_def Let_def)

theorem bool_from_bytes_byte_witness:
  "from_bytes BoolCls [0] = Inr (BoolCommand False)
   \<and> from_bytes BoolCls [1] = Inr (BoolCommand True)
   \<and> from_bytes BoolCls [2] = Inl ValueError
   \<and> from_bytes BoolCls [255] = Inl ValueError"
  using bool_from_bytes_byte[of 0] bool_from_bytes_byte[of 1]
        bool_from_bytes_byte[of 2] bool_from_bytes_byte[of 255]
  by simp

lemma from_le_bounds: "0 \<le> from_le bs \<and> from_le bs < 256 ^ length bs"
proof (induction bs)
  case Nil
  show ?case by simp
next
  case (Cons b bs)
  have "uint b < 256" using uint_bounded[of b] by simp
  moreover have "from_le bs + 1 \<le> 256 ^ length bs" using Cons by simp
  then have "256 * (from_le bs + 1) \<le> 256 * 256 ^ length bs" by simp
  ultimately show ?case using Cons by (simp add: algebra_simps)
qed

lemma int_from_bytes_signed_range:
  "- (256 ^ length bs) \<le> 2 * int_from_bytes bs True \<and> 2 * int_from_bytes bs True < 256 ^ length bs"
  using from_le_bounds[of bs] by (auto simp: int_from_bytes_def Let_def)

text \<open>
  C9. \<^verbatim>\<open>IsPrimeCommand.from_bytes\<close> succeeds on every payload of 4 bytes: the signed
  little-endian value lies between \<open>-2^31\<close> and \<open>2^31 - 1\<close>, so the constructor does not raise.
\<close>

theorem isprime_from_bytes_total:
  assumes "length bs = 4"
  shows "from_bytes IsPrimeCls bs = Inr (IsPrimeCommand (int_from_bytes bs True))
         \<and> - (2 ^ 31) \<le> int_from_bytes bs True \<and> int_from_bytes bs True \<le> 2 ^ 31 - 1"
  using int_from_bytes_signed_range[of bs] assms
  by (simp add: IsPrimeCommand_init_def MIN_ALLOWED_def MAX_ALLOWED_def)

theorem isprime_from_bytes_total_witness:
  "length [0, 0, 0, 128 :: byte] = 4
   \<and> from_bytes IsPrimeCls [0, 0, 0, 128] = Inr (IsPrimeCommand (- (2 ^ 31)))"
proof -
  have l: "length [0, 0, 0, 128 :: byte] = 4" by simp
  have v: "int_from_bytes [0, 0, 0, 128] True = - (2 ^ 31)"
    by (simp add: int_from_bytes_def)
  from isprime_from_bytes_total[OF l] l v show ?thesis by simp
qed

section \<open>Encoding and decoding\<close>

subsection \<open>Integers\<close>

lemma length_to_le: "length (to_le k n) = k"
  by (induction k arbitrary: n) auto

lemma from_le_to_le: "from_le (to_le k n) = n mod 256 ^ k"
proof (induction k arbitrary: n)
  case 0
  show ?case by simp
next
  case (Suc k)
  have "uint (word_of_int n :: byte) = n mod 256"
    by (simp add: uint_word_of_int take_bit_eq_mod)
  then show ?case
    using Suc[of "n div 256"] zmod_zmult2_eq[of "256 ^ k" n 256] by simp
qed

lemma from_le_append: "from_le (xs @ ys) = from_le xs + 256 ^ length xs * from_le ys"
  by (induction xs) (auto simp: algebra_simps)

lemma int_from_bytes_to_le:
  assumes "- (256 ^ k) \<le> 2 * n" "2 * n < 256 ^ k"
  shows "int_from_bytes (to_le k n) True = n"
proof (cases "0 \<le> n")
  case True
  then have "n mod 256 ^ k = n" using assms by (intro mod_pos_pos_trivial) simp_all
  then show ?thesis using assms by (simp add: int_from_bytes_def from_le_to_le length_to_le)
next
  case False
  have "(n + 256 ^ k) mod 256 ^ k = n + 256 ^ k"
    using False assms by (intro mod_pos_pos_trivial) simp_all
  then have "n mod 256 ^ k = n + 256 ^ k" by simp
  then show ?thesis using False assms by (simp add: int_from_bytes_def from_le_to_le length_to_le)
qed

lemma int_from_bytes_to_le_4:
  "fits_i32 n \<Longrightarrow> int_from_bytes (to_le 4 n) True = n"
  by (rule int_from_bytes_to_le) (simp_all add: fits_i32_def)

lemma struct_roundtrip:
  assumes "fits_i32 a" "fits_i32 b" "fits_i32 c" "fits_i32 d"
  shows "struct_unpack_iiii (to_le 4 a @ to_le 4 b @ to_le 4 c @ to_le 4 d) = Inr (a, b, c, d)"
  using assms
  by (simp add: struct_unpack_iiii_def length_to_le int_from_bytes_to_le_4)

lemma length_struct_pack: "struct_pack_iiii a b c d = Inr bs \<Longrightarrow> length bs = 16"
  by (auto simp: struct_pack_iiii_def length_to_le split: if_splits)

lemma length_int_to_bytes: "int_to_bytes n k sg = Inr bs \<Longrightarrow> length bs = k"
  by (auto simp: int_to_bytes_def length_to_le split: if_splits)

lemma length_to_bytes: "to_bytes c = Inr bs \<Longrightarrow> length bs = data_length (cls_of c)"
proof (cases c)
  case (WhoCommand a)
  assume "to_bytes c = Inr bs"
  with WhoCommand show ?thesis
    by (cases a) (auto simp: ljust_nul_def Let_def split: if_splits sum.splits)
qed (auto dest: length_int_to_bytes length_struct_pack)

subsection \<open>UTF-8\<close>

lemma unat_byte: "x < 256 \<Longrightarrow> unat (of_nat x :: byte) = x"
  by (simp add: unat_of_nat)

lemma decode_1:
  assumes "x0 < 0x80"
  shows "bytes_decode (of_nat x0 # rest) = cons_ok x0 (bytes_decode rest)"
  using assms by (simp add: unat_byte)

lemma decode_2:
  assumes "0xC2 \<le> x0" "x0 \<le> 0xDF" "0x80 \<le> x1" "x1 \<le> 0xBF"
  shows "bytes_decode (of_nat x0 # of_nat x1 # rest)
         = cons_ok ((x0 - 0xC0) * 64 + (x1 - 0x80)) (bytes_decode rest)"
  using assms by (simp add: unat_byte is_cont_def cont_bits_def)

lemma decode_3:
  assumes "0xE0 \<le> x0" "x0 \<le> 0xEF" "0x80 \<le> x1" "x1 \<le> 0xBF" "0x80 \<le> x2" "x2 \<le> 0xBF"
    and "x0 = 0xE0 \<Longrightarrow> 0xA0 \<le> x1" "x0 = 0xED \<Longrightarrow> x1 \<le> 0x9F"
  shows "bytes_decode (of_nat x0 # of_nat x1 # of_nat x2 # rest)
         = cons_ok ((x0 - 0xE0) * 4096 + (x1 - 0x80) * 64 + (x2 - 0x80)) (bytes_decode rest)"
  using assms by (simp add: unat_byte is_cont_def cont_bits_def)

lemma decode_4:
  assumes "0xF0 \<le> x0" "x0 \<le> 0xF4" "0x80 \<le> x1" "x1 \<le> 0xBF" "0x80 \<le> x2" "x2 \<le> 0xBF"
    and "0x80 \<le> x3" "x3 \<le> 0xBF"
    and "x0 = 0xF0 \<Longrightarrow> 0x90 \<le> x1" "x0 = 0xF4 \<Longrightarrow> x1 \<le> 0x8F"
  shows "bytes_decode (of_nat x0 # of_nat x1 # of_nat x2 # of_nat x3 # rest)
         = cons_ok ((x0 - 0xF0) * 262144 + (x1 - 0x80) * 4096 + (x2 - 0x80) * 64 + (x3 - 0x80))
             (bytes_decode rest)"
  using assms by (simp add: unat_byte is_cont_def cont_bits_def)

lemma recombine_3:
  fixes a b q r c :: nat
  shows "a * 64 + b = q \<Longrightarrow> q * 64 + r = c \<Longrightarrow> a * 4096 + b * 64 + r = c"
  by auto

lemma recombine_4:
  fixes a b b' p q r c :: nat
  shows "a * 64 + b = p \<Longrightarrow> p * 64 + b' = q \<Longrightarrow> q * 64 + r = c
         \<Longrightarrow> a * 262144 + b * 4096 + b' * 64 + r = c"
  by auto

lemma decode_encode_char:
  assumes enc: "utf8_encode_char c = Some bs" and c: "c < 0x110000"
  shows "bytes_decode (bs @ rest) = cons_ok c (bytes_decode rest)"
proof -
  consider (one) "c < 0x80"
    | (two) "0x80 \<le> c" "c < 0x800"
    | (three) "0x800 \<le> c" "c < 0x10000" "\<not> (0xD800 \<le> c \<and> c \<le> 0xDFFF)"
    | (four) "0x10000 \<le> c"
    | (sur) "0xD800 \<le> c \<and> c \<le> 0xDFFF"
    by linarith
  then show ?thesis
  proof cases
    case one
    with enc have bs: "bs = [of_nat c]" by (simp add: utf8_encode_char_def)
    show ?thesis unfolding bs using one by (simp only: append_Cons append_Nil decode_1)
  next
    case two
    with enc have bs: "bs = [of_nat (0xC0 + c div 64), of_nat (0x80 + c mod 64)]"
      by (simp add: utf8_encode_char_def)
    have "bytes_decode (of_nat (0xC0 + c div 64) # of_nat (0x80 + c mod 64) # rest)
          = cons_ok ((0xC0 + c div 64 - 0xC0) * 64 + (0x80 + c mod 64 - 0x80)) (bytes_decode rest)"
      using two by (intro decode_2) simp_all
    then show ?thesis by (simp add: bs)
  next
    case three
    with enc have bs: "bs = [of_nat (0xE0 + c div 4096), of_nat (0x80 + c div 64 mod 64),
                             of_nat (0x80 + c mod 64)]"
      by (simp add: utf8_encode_char_def)
    have ed: "c div 64 mod 64 \<le> 31" if "c div 4096 = 13"
    proof -
      have "53248 \<le> c" "c < 57344" using that by linarith+
      with three have "53248 \<le> c" "c < 55296" by linarith+
      then have a: "832 \<le> c div 64" "c div 64 < 864" by linarith+
      then obtain y where y: "c div 64 = 832 + y" using le_Suc_ex by blast
      with a have "y < 32" by simp
      have "(13 * 64 + y) mod 64 = y mod 64" by (simp only: mod_mult_self3)
      then have "c div 64 mod 64 = y" using \<open>y < 32\<close> by (simp add: y)
      then show ?thesis using \<open>y < 32\<close> by simp
    qed
    have "bytes_decode (of_nat (0xE0 + c div 4096) # of_nat (0x80 + c div 64 mod 64)
                        # of_nat (0x80 + c mod 64) # rest)
          = cons_ok ((0xE0 + c div 4096 - 0xE0) * 4096 + (0x80 + c div 64 mod 64 - 0x80) * 64
                     + (0x80 + c mod 64 - 0x80)) (bytes_decode rest)"
      using three ed by (intro decode_3) simp_all
    moreover have "c div 4096 * 4096 + c div 64 mod 64 * 64 + c mod 64 = c"
    proof -
      have "c div 4096 = c div 64 div 64" by (simp add: div_mult2_eq [symmetric])
      then have "c div 4096 * 64 + c div 64 mod 64 = c div 64" by simp
      moreover have "c div 64 * 64 + c mod 64 = c" by simp
      ultimately show ?thesis by (rule recombine_3)
    qed
    ultimately show ?thesis by (simp add: bs)
  next
    case four
    with enc have bs: "bs = [of_nat (0xF0 + c div 262144), of_nat (0x80 + c div 4096 mod 64),
                             of_nat (0x80 + c div 64 mod 64), of_nat (0x80 + c mod 64)]"
      by (simp add: utf8_encode_char_def)
    have f4: "c div 4096 mod 64 \<le> 15" if "c div 262144 = 4"
    proof -
      have "1048576 \<le> c" using that by linarith
      with c have a: "256 \<le> c div 4096" "c div 4096 < 272" by linarith+
      then obtain y where y: "c div 4096 = 256 + y" using le_Suc_ex by blast
      with a have "y < 16" by simp
      have "(4 * 64 + y) mod 64 = y mod 64" by (simp only: mod_mult_self3)
      then have "c div 4096 mod 64 = y" using \<open>y < 16\<close> by (simp add: y)
      then show ?thesis using \<open>y < 16\<close> by simp
    qed
    have "bytes_decode (of_nat (0xF0 + c div 262144) # of_nat (0x80 + c div 4096 mod 64)
                        # of_nat (0x80 + c div 64 mod 64) # of_nat (0x80 + c mod 64) # rest)
          = cons_ok ((0xF0 + c div 262144 - 0xF0) * 262144
                     + (0x80 + c div 4096 mod 64 - 0x80) * 4096
                     + (0x80 + c div 64 mod 64 - 0x80) * 64
                     + (0x80 + c mod 64 - 0x80)) (bytes_decode rest)"
      using four c f4 by (intro decode_4) simp_all
    moreover have "c div 262144 * 262144 + c div 4096 mod 64 * 4096 + c div 64 mod 64 * 64
                   + c mod 64 = c"
    proof -
      have "c div 262144 = c div 4096 div 64" by (simp add: div_mult2_eq [symmetric])
      then have "c div 262144 * 64 + c div 4096 mod 64 = c div 4096" by simp
      moreover have "c div 4096 = c div 64 div 64" by (simp add: div_mult2_eq [symmetric])
      then have "c div 4096 * 64 + c div 64 mod 64 = c div 64" by simp
      moreover have "c div 64 * 64 + c mod 64 = c" by simp
      ultimately show ?thesis by (rule recombine_4)
    qed
    ultimately show ?thesis by (simp add: bs)
  next
    case sur
    with enc show ?thesis by (simp add: utf8_encode_char_def)
  qed
qed

lemma decode_encode_str:
  "str_encode e s = Inr bs \<Longrightarrow> str_ok s \<Longrightarrow> bytes_decode bs = Inr s"
proof (induction s arbitrary: bs)
  case Nil
  then show ?case by simp
next
  case (Cons c cs)
  from Cons.prems(1) obtain b rest where
    b: "utf8_encode_char c = Some b" and rest: "str_encode e cs = Inr rest" and bs: "bs = b @ rest"
    by (auto split: option.splits sum.splits)
  from Cons.prems(2) have c: "c < 0x110000" and cs: "str_ok cs" by (simp_all add: str_ok_def)
  from Cons.IH[OF rest cs] decode_encode_char[OF b c, of rest] show ?case
    by (simp add: bs cons_ok_def)
qed

lemma byte_nonzero: "0 < x \<Longrightarrow> x < 256 \<Longrightarrow> (of_nat x :: byte) \<noteq> 0"
  using unat_byte[of x] by force

lemma encode_char_ends:
  assumes enc: "utf8_encode_char c = Some bs" and c: "c < 0x110000" and nz: "c \<noteq> 0"
  shows "bs \<noteq> [] \<and> hd bs \<noteq> 0 \<and> last bs \<noteq> 0"
proof -
  have m: "0x80 + c mod 64 < 256" "0 < 0x80 + c mod 64" by simp_all
  note l = byte_nonzero[OF m(2) m(1)]
  consider (one) "c < 0x80"
    | (two) "0x80 \<le> c" "c < 0x800"
    | (three) "0x800 \<le> c" "c < 0x10000" "\<not> (0xD800 \<le> c \<and> c \<le> 0xDFFF)"
    | (four) "0x10000 \<le> c"
    | (sur) "0xD800 \<le> c \<and> c \<le> 0xDFFF"
    by linarith
  then show ?thesis
  proof cases
    case one
    with enc have bs: "bs = [of_nat c]" by (simp add: utf8_encode_char_def)
    from one nz have "(of_nat c :: byte) \<noteq> 0" by (intro byte_nonzero) simp_all
    then show ?thesis by (simp add: bs)
  next
    case two
    with enc have bs: "bs = [of_nat (0xC0 + c div 64), of_nat (0x80 + c mod 64)]"
      by (simp add: utf8_encode_char_def)
    from two have "(of_nat (0xC0 + c div 64) :: byte) \<noteq> 0" by (intro byte_nonzero) simp_all
    with l show ?thesis by (simp add: bs)
  next
    case three
    with enc have bs: "bs = [of_nat (0xE0 + c div 4096), of_nat (0x80 + c div 64 mod 64),
                             of_nat (0x80 + c mod 64)]"
      by (simp add: utf8_encode_char_def)
    from three have "(of_nat (0xE0 + c div 4096) :: byte) \<noteq> 0" by (intro byte_nonzero) simp_all
    with l show ?thesis by (simp add: bs)
  next
    case four
    with enc have bs: "bs = [of_nat (0xF0 + c div 262144), of_nat (0x80 + c div 4096 mod 64),
                             of_nat (0x80 + c div 64 mod 64), of_nat (0x80 + c mod 64)]"
      by (simp add: utf8_encode_char_def)
    from four c have "(of_nat (0xF0 + c div 262144) :: byte) \<noteq> 0"
      by (intro byte_nonzero) simp_all
    with l show ?thesis by (simp add: bs)
  next
    case sur
    with enc show ?thesis by (simp add: utf8_encode_char_def)
  qed
qed

lemma encode_char_nonempty: "utf8_encode_char c = Some bs \<Longrightarrow> bs \<noteq> []"
  by (auto simp: utf8_encode_char_def split: if_splits)

lemma encode_str_nonempty: "str_encode e s = Inr bs \<Longrightarrow> s \<noteq> [] \<Longrightarrow> bs \<noteq> []"
  by (cases s) (auto split: option.splits sum.splits dest: encode_char_nonempty)

lemma encode_str_hd:
  assumes "str_encode e s = Inr bs" "str_ok s" "s \<noteq> []" "hd s \<noteq> 0"
  shows "hd bs \<noteq> 0"
proof -
  from assms(3) obtain c cs where s: "s = c # cs" by (cases s) auto
  with assms(1) obtain b rest where
    b: "utf8_encode_char c = Some b" and bs: "bs = b @ rest"
    by (auto split: option.splits sum.splits)
  from assms s have "c < 0x110000" "c \<noteq> 0" by (simp_all add: str_ok_def)
  from encode_char_ends[OF b this] show ?thesis by (simp add: bs)
qed

lemma encode_str_last:
  "str_encode e s = Inr bs \<Longrightarrow> str_ok s \<Longrightarrow> s \<noteq> [] \<Longrightarrow> last s \<noteq> 0 \<Longrightarrow> last bs \<noteq> 0"
proof (induction s arbitrary: bs)
  case Nil
  then show ?case by simp
next
  case (Cons c cs)
  from Cons.prems(1) obtain b rest where
    b: "utf8_encode_char c = Some b" and rest: "str_encode e cs = Inr rest" and bs: "bs = b @ rest"
    by (auto split: option.splits sum.splits)
  from Cons.prems(2) have c: "c < 0x110000" and cs: "str_ok cs" by (simp_all add: str_ok_def)
  show ?case
  proof (cases "cs = []")
    case True
    with rest have "rest = []" by simp
    moreover from True Cons.prems(4) have "c \<noteq> 0" by simp
    ultimately show ?thesis using encode_char_ends[OF b c] by (simp add: bs)
  next
    case False
    with Cons.prems(4) have "last cs \<noteq> 0" by simp
    from Cons.IH[OF rest cs False this] encode_str_nonempty[OF rest False]
    show ?thesis by (simp add: bs)
  qed
qed

lemma dropWhile_zeros:
  "dropWhile (\<lambda>b. b = 0) (replicate k (0::byte) @ ys) = dropWhile (\<lambda>b. b = 0) ys"
  by (induction k) simp_all

lemma strip_nul_padded:
  assumes "bs \<noteq> []" "hd bs \<noteq> 0" "last bs \<noteq> 0"
  shows "strip_nul (bs @ replicate k 0) = bs"
proof -
  from assms obtain x xs where bs: "bs = x # xs" and x: "x \<noteq> 0" by (cases bs) auto
  have 1: "dropWhile (\<lambda>b. b = 0) (bs @ replicate k 0) = bs @ replicate k 0"
    using x by (simp add: bs)
  from assms obtain y ys where r: "rev bs = y # ys" and y: "y \<noteq> 0"
    by (cases "rev bs") (auto simp: last_rev [symmetric] simp del: last_rev)
  have "dropWhile (\<lambda>b. b = 0) (rev (bs @ replicate k 0)) = dropWhile (\<lambda>b. b = 0) (rev bs)"
    by (simp add: dropWhile_zeros)
  also have "\<dots> = rev bs" using y by (simp add: r)
  finally show ?thesis by (simp add: strip_nul_def 1)
qed

lemma strip_nul_zeros: "strip_nul (replicate k 0) = []"
  by (simp add: strip_nul_def)

subsection \<open>Round trip\<close>

lemma who_author_roundtrip:
  assumes ok: "str_ok a" and ne: "a \<noteq> []" and h: "hd a \<noteq> 0" and l: "last a \<noteq> 0"
    and enc: "str_encode LookupError a = Inr enc" and len: "length enc \<le> 128"
  shows "decode_encode (WhoCommand (Some a)) = Inr (WhoCommand (Some a))"
proof -
  have tb: "to_bytes (WhoCommand (Some a)) = Inr (enc @ replicate (128 - length enc) 0)"
    using ne enc len by (simp add: ljust_nul_def Let_def)
  have "strip_nul (enc @ replicate (128 - length enc) 0) = enc"
    using encode_str_nonempty[OF enc ne] encode_str_hd[OF enc ok ne h]
          encode_str_last[OF enc ok ne l]
    by (rule strip_nul_padded)
  moreover have "bytes_decode enc = Inr a" using enc ok by (rule decode_encode_str)
  ultimately show ?thesis using ne unfolding decode_encode_def tb by simp
qed

lemma who_none_roundtrip:
  "decode_encode (WhoCommand None) = Inr (WhoCommand None)"
  "decode_encode (WhoCommand (Some [])) = Inr (WhoCommand None)"
  by (simp_all add: decode_encode_def strip_nul_zeros)

lemma bool_roundtrip: "decode_encode (BoolCommand v) = Inr (BoolCommand v)"
  by (cases v) (simp_all add: decode_encode_def int_to_bytes_def int_from_bytes_def)

lemma isprime_roundtrip:
  assumes "MIN_ALLOWED \<le> n" "n \<le> MAX_ALLOWED"
  shows "decode_encode (IsPrimeCommand n) = Inr (IsPrimeCommand n)"
proof -
  have f: "fits_i32 n" using assms by (simp add: fits_i32_def MIN_ALLOWED_def MAX_ALLOWED_def)
  then have "to_bytes (IsPrimeCommand n) = Inr (to_le 4 n)"
    by (simp add: int_to_bytes_def fits_i32_def)
  then show ?thesis
    using assms by (simp add: decode_encode_def int_from_bytes_to_le_4[OF f] IsPrimeCommand_init_def)
qed

lemma stats_roundtrip:
  assumes "fits_i32 a" "fits_i32 b" "fits_i32 c" "fits_i32 d"
  shows "decode_encode (StatsCommand a b c d) = Inr (StatsCommand a b c d)"
  using assms by (simp add: decode_encode_def struct_pack_iiii_def struct_roundtrip)

text \<open>
  C2 as stated fails for \<^verbatim>\<open>who\<close>: an empty-string author comes back as no author, and an
  author that ends with a NUL character comes back without it.
\<close>

theorem who_roundtrip_counterexample:
  "decode_encode (WhoCommand (Some [])) = Inr (WhoCommand None)
   \<and> decode_encode (WhoCommand (Some [])) \<noteq> Inr (WhoCommand (Some []))
   \<and> decode_encode (WhoCommand (Some [65, 0])) = Inr (WhoCommand (Some [65]))
   \<and> decode_encode (WhoCommand (Some [65, 0])) \<noteq> Inr (WhoCommand (Some [65, 0]))"
proof -
  have e: "str_encode LookupError [65, 0] = Inr [65, 0]"
    by (simp add: utf8_encode_char_def)
  have "[65, 0] @ replicate 126 (0::byte) = [65] @ replicate 127 0"
    by (simp add: replicate_Suc [symmetric] del: replicate_Suc)
  then have "strip_nul ([65, 0] @ replicate 126 0) = [65]"
    using strip_nul_padded[of "[65]" 127] by simp
  moreover have tb: "to_bytes (WhoCommand (Some [65, 0])) = Inr ([65, 0] @ replicate 126 0)"
    unfolding to_bytes.simps e by (simp add: ljust_nul_def)
  ultimately have "decode_encode (WhoCommand (Some [65, 0])) = Inr (WhoCommand (Some [65]))"
    unfolding decode_encode_def tb by (simp add: cons_ok_def)
  then show ?thesis by (simp add: who_none_roundtrip)
qed

text \<open>
  C2, amended. Decoding the encoding of a command gives the command back for \<^verbatim>\<open>bool\<close>,
  \<^verbatim>\<open>finishsession\<close>, \<^verbatim>\<open>isprime\<close> with \<open>n\<close> from \<open>-2^31\<close> to \<open>2^31 - 1\<close>, \<^verbatim>\<open>stats\<close> with every field in
  that range, \<^verbatim>\<open>who\<close> without author (\<^verbatim>\<open>None\<close>), and \<^verbatim>\<open>who\<close> with a non-empty author that neither
  begins nor ends with a NUL character and whose UTF-8 encoding has at most 128 bytes.
  The empty-string author decodes to no author.
\<close>

theorem command_roundtrip:
  "decode_encode (WhoCommand None) = Inr (WhoCommand None)
   \<and> (str_ok a \<and> a \<noteq> [] \<and> hd a \<noteq> 0 \<and> last a \<noteq> 0
        \<and> str_encode LookupError a = Inr enc \<and> length enc \<le> 128
       \<longrightarrow> decode_encode (WhoCommand (Some a)) = Inr (WhoCommand (Some a)))
   \<and> decode_encode (WhoCommand (Some [])) = Inr (WhoCommand None)
   \<and> decode_encode (BoolCommand v) = Inr (BoolCommand v)
   \<and> (MIN_ALLOWED \<le> n \<and> n \<le> MAX_ALLOWED
       \<longrightarrow> decode_encode (IsPrimeCommand n) = Inr (IsPrimeCommand n))
   \<and> decode_encode FinishSessionCommand = Inr FinishSessionCommand
   \<and> (fits_i32 numbers \<and> fits_i32 primes \<and> fits_i32 min_v \<and> fits_i32 max_v
       \<longrightarrow> decode_encode (StatsCommand numbers primes min_v max_v)
           = Inr (StatsCommand numbers primes min_v max_v))"
proof -
  have "decode_encode FinishSessionCommand = Inr FinishSessionCommand"
    by (simp add: decode_encode_def)
  with who_none_roundtrip who_author_roundtrip bool_roundtrip isprime_roundtrip stats_roundtrip
  show ?thesis by blast
qed

theorem command_roundtrip_witness:
  "decode_encode (IsPrimeCommand (- (2 ^ 31))) = Inr (IsPrimeCommand (- (2 ^ 31)))
   \<and> decode_encode (IsPrimeCommand (2 ^ 31 - 1)) = Inr (IsPrimeCommand (2 ^ 31 - 1))
   \<and> decode_encode (StatsCommand (2 ^ 31 - 1) 0 (- (2 ^ 31)) (2 ^ 31 - 1))
       = Inr (StatsCommand (2 ^ 31 - 1) 0 (- (2 ^ 31)) (2 ^ 31 - 1))
   \<and> decode_encode (WhoCommand (Some (replicate 128 65))) = Inr (WhoCommand (Some (replicate 128 65)))"
proof -
  have r: "MIN_ALLOWED \<le> - (2 ^ 31) \<and> - (2 ^ 31) \<le> MAX_ALLOWED"
          "MIN_ALLOWED \<le> 2 ^ 31 - 1 \<and> 2 ^ 31 - 1 \<le> MAX_ALLOWED"
    by (simp_all add: MIN_ALLOWED_def MAX_ALLOWED_def)
  have f: "fits_i32 (2 ^ 31 - 1) \<and> fits_i32 0 \<and> fits_i32 (- (2 ^ 31)) \<and> fits_i32 (2 ^ 31 - 1)"
    by (simp add: fits_i32_def)
  have e: "str_encode LookupError (replicate k 65) = Inr (replicate k 65)" for k
    by (induction k) (simp_all add: utf8_encode_char_def)
  have w: "str_ok (replicate 128 65) \<and> replicate 128 (65::nat) \<noteq> [] \<and> hd (replicate 128 (65::nat)) \<noteq> 0
           \<and> last (replicate 128 (65::nat)) \<noteq> 0
           \<and> str_encode LookupError (replicate 128 65) = Inr (replicate 128 65)
           \<and> length (replicate 128 (65::byte)) \<le> 128"
    by (simp add: str_ok_def e list_all_iff)
  from command_roundtrip[of "replicate 128 65" "replicate 128 65" True "- (2 ^ 31)" 0 0 0 0]
       command_roundtrip[of "[]" "[]" True "2 ^ 31 - 1" "2 ^ 31 - 1" 0 "- (2 ^ 31)" "2 ^ 31 - 1"]
       r f w
  show ?thesis by blast
qed

section \<open>Payload lengths\<close>

text \<open>
  C6. The payload that \<^verbatim>\<open>to_bytes\<close> returns has the declared \<^verbatim>\<open>data_length\<close> of the command's
  class, and \<^verbatim>\<open>to_bytes\<close> returns one for every value of the valid domain: 128 bytes for
  \<^verbatim>\<open>who\<close> (without author, and with an author whose encoding has at most 128 bytes), 1 for
  \<^verbatim>\<open>bool\<close>, 4 for \<^verbatim>\<open>isprime\<close>, 0 for \<^verbatim>\<open>finishsession\<close>, 16 for \<^verbatim>\<open>stats\<close>.
\<close>

theorem to_bytes_length:
  "(to_bytes c = Inr bs \<longrightarrow> length bs = data_length (cls_of c))
   \<and> (\<exists>bs. to_bytes (WhoCommand None) = Inr bs \<and> length bs = 128)
   \<and> (str_encode LookupError a = Inr enc \<and> length enc \<le> 128
       \<longrightarrow> (\<exists>bs. to_bytes (WhoCommand (Some a)) = Inr bs \<and> length bs = 128))
   \<and> (\<exists>bs. to_bytes (BoolCommand v) = Inr bs \<and> length bs = 1)
   \<and> (MIN_ALLOWED \<le> n \<and> n \<le> MAX_ALLOWED
       \<longrightarrow> (\<exists>bs. to_bytes (IsPrimeCommand n) = Inr bs \<and> length bs = 4))
   \<and> (\<exists>bs. to_bytes FinishSessionCommand = Inr bs \<and> length bs = 0)
   \<and> (fits_i32 numbers \<and> fits_i32 primes \<and> fits_i32 min_v \<and> fits_i32 max_v
       \<longrightarrow> (\<exists>bs. to_bytes (StatsCommand numbers primes min_v max_v) = Inr bs \<and> length bs = 16))"
proof -
  have who: "\<exists>bs. to_bytes (WhoCommand (Some a)) = Inr bs \<and> length bs = 128"
    if "str_encode LookupError a = Inr enc" "length enc \<le> 128"
    using that by (simp add: ljust_nul_def Let_def)
  have bool: "\<exists>bs. to_bytes (BoolCommand v) = Inr bs \<and> length bs = 1"
    by (simp add: int_to_bytes_def)
  have isprime: "\<exists>bs. to_bytes (IsPrimeCommand n) = Inr bs \<and> length bs = 4"
    if "MIN_ALLOWED \<le> n" "n \<le> MAX_ALLOWED"
    using that by (simp add: int_to_bytes_def MIN_ALLOWED_def MAX_ALLOWED_def length_to_le)
  have stats: "\<exists>bs. to_bytes (StatsCommand numbers primes min_v max_v) = Inr bs \<and> length bs = 16"
    if "fits_i32 numbers" "fits_i32 primes" "fits_i32 min_v" "fits_i32 max_v"
    using that by (simp add: struct_pack_iiii_def length_to_le)
  have "\<exists>bs. to_bytes (WhoCommand None) = Inr bs \<and> length bs = 128" by simp
  moreover have "\<exists>bs. to_bytes FinishSessionCommand = Inr bs \<and> length bs = 0" by simp
  ultimately show ?thesis
    using length_to_bytes[of c bs] who bool isprime stats by blast
qed

theorem to_bytes_length_witness:
  "to_bytes (IsPrimeCommand 5) = Inr [5, 0, 0, 0]
   \<and> length [5, 0, 0, 0 :: byte] = data_length (cls_of (IsPrimeCommand 5))"
proof -
  have t: "to_bytes (IsPrimeCommand 5) = Inr [5, 0, 0, 0]"
    by (simp add: int_to_bytes_def numeral_eq_Suc)
  from to_bytes_length[of "IsPrimeCommand 5" "[5, 0, 0, 0]" "[]" "[]" True 0 0 0 0 0] t
  show ?thesis by blast
qed

text \<open>
  C5 as stated fails: \<^verbatim>\<open>BoolCommand.from_bytes\<close> decodes the empty payload, whose length is
  not the declared 1.
\<close>

theorem bool_wrong_length_counterexample:
  "from_bytes BoolCls [] = Inr (BoolCommand False) \<and> length ([] :: bytes) \<noteq> data_length BoolCls"
  by (simp add: int_from_bytes_def)

text \<open>
  C5, amended. Only \<^verbatim>\<open>StatsCommand.from_bytes\<close> fails on every payload whose length differs
  from the declared \<^verbatim>\<open>data_length\<close>; the server's \<^verbatim>\<open>_recv\<close> hands \<^verbatim>\<open>from_bytes\<close> exactly
  \<^verbatim>\<open>data_length\<close> bytes; \<^verbatim>\<open>from_bytes\<close> of \<^verbatim>\<open>who\<close>, \<^verbatim>\<open>bool\<close>, \<^verbatim>\<open>isprime\<close> and \<^verbatim>\<open>finishsession\<close> does not check
  the length and decodes payloads of other lengths.
\<close>

theorem wrong_length_payloads:
  "(length bs \<noteq> data_length StatsCls \<longrightarrow> from_bytes StatsCls bs = Inl StructError)
   \<and> (recv (int (data_length k)) st = (Inr command_data, st1)
       \<longrightarrow> length command_data = data_length k)
   \<and> from_bytes WhoCls [65] = Inr (WhoCommand (Some [65]))
   \<and> from_bytes BoolCls [] = Inr (BoolCommand False)
   \<and> from_bytes BoolCls [1, 0] = Inr (BoolCommand True)
   \<and> from_bytes IsPrimeCls [5] = Inr (IsPrimeCommand 5)
   \<and> from_bytes FinishSessionCls [7] = Inr FinishSessionCommand"
proof -
  have "length command_data = data_length k"
    if "recv (int (data_length k)) st = (Inr command_data, st1)"
    using recv_length[OF that] by simp
  moreover have "from_bytes StatsCls bs = Inl StructError" if "length bs \<noteq> data_length StatsCls"
    using that by (simp add: struct_unpack_iiii_def)
  moreover have "from_bytes WhoCls [65] = Inr (WhoCommand (Some [65]))"
    by (simp add: strip_nul_def cons_ok_def)
  moreover have "from_bytes BoolCls [] = Inr (BoolCommand False)"
    "from_bytes BoolCls [1, 0] = Inr (BoolCommand True)"
    by (simp_all add: int_from_bytes_def)
  moreover have "from_bytes IsPrimeCls [5] = Inr (IsPrimeCommand 5)"
    by (simp add: int_from_bytes_def IsPrimeCommand_init_def MIN_ALLOWED_def MAX_ALLOWED_def)
  ultimately show ?thesis by simp
qed

theorem wrong_length_payloads_witness:
  "length [1, 2, 3 :: byte] \<noteq> data_length StatsCls
   \<and> from_bytes StatsCls [1, 2, 3] = Inl StructError
   \<and> recv (int (data_length IsPrimeCls)) \<lparr>buffer = [1, 2, 3, 4, 5], inbound = [], outbound = []\<rparr>
       = (Inr [1, 2, 3, 4], \<lparr>buffer = [5], inbound = [], outbound = []\<rparr>)
   \<and> length [1, 2, 3, 4 :: byte] = data_length IsPrimeCls"
proof -
  have l: "length [1, 2, 3 :: byte] \<noteq> data_length StatsCls" by simp
  have r: "recv (int (data_length IsPrimeCls)) \<lparr>buffer = [1, 2, 3, 4, 5], inbound = [], outbound = []\<rparr>
           = (Inr [1, 2, 3, 4], \<lparr>buffer = [5], inbound = [], outbound = []\<rparr>)"
    by (simp add: recv_def slice_to_def slice_from_def)
  from wrong_length_payloads[of "[1, 2, 3]" IsPrimeCls
         "\<lparr>buffer = [1, 2, 3, 4, 5], inbound = [], outbound = []\<rparr>" "[1, 2, 3, 4]"
         "\<lparr>buffer = [5], inbound = [], outbound = []\<rparr>"] l r
  show ?thesis by blast
qed

section \<open>The session driver on a command without response\<close>

lemma recv_fill_enough_buf: "\<not> int (length buf) < n \<Longrightarrow> recv_fill n buf chunks = (True, buf, chunks)"
  by (cases chunks) simp_all

lemma recv_buffered:
  assumes "0 \<le> n" "nat n \<le> length (buffer st)"
  shows "recv n st = (Inr (take (nat n) (buffer st)), st\<lparr>buffer := drop (nat n) (buffer st)\<rparr>)"
proof -
  have "\<not> int (length (buffer st)) < n" using assms by linarith
  from recv_fill_enough_buf[OF this] show ?thesis
    using assms(1) by (simp add: recv_def slice_to_def slice_from_def)
qed

lemma name_who: "name WhoCls = [0x77, 0x68, 0x6F]"
  by (simp add: ascii_def)

lemma table_who: "commands_decode_table [0x77, 0x68, 0x6F] = Some WhoCls"
  by (simp add: commands_decode_table_def ascii_def)

lemma decode_who: "bytes_decode [0x77, 0x68, 0x6F] = Inr [0x77, 0x68, 0x6F]"
  by (simp add: cons_ok_def)

lemma from_bytes_who_X: "from_bytes WhoCls (0x58 # replicate 127 0) = Inr (WhoCommand (Some [0x58]))"
proof -
  have "strip_nul ([0x58] @ replicate 127 0) = [0x58]" by (rule strip_nul_padded) simp_all
  then show ?thesis by (simp add: cons_ok_def)
qed

lemma receive_who_X:
  "receive_message \<lparr>buffer = [], inbound = [who_X], outbound = []\<rparr>
   = (Inr (Some (WhoCommand (Some [0x58]))), \<lparr>buffer = [], inbound = [], outbound = []\<rparr>)"
proof -
  let ?s1 = "\<lparr>buffer = 0x77 # 0x68 # 0x6F # 0x58 # replicate 127 0, inbound = [], outbound = []\<rparr>"
  let ?s2 = "\<lparr>buffer = 0x58 # replicate 127 0, inbound = [], outbound = []\<rparr>"
  let ?s3 = "\<lparr>buffer = [], inbound = [], outbound = []\<rparr>"
  have 1: "recv (int MESSAGE_HEADER_SIZE_LENGTH) \<lparr>buffer = [], inbound = [who_X], outbound = []\<rparr>
           = (Inr [4], ?s1)"
    by (simp add: recv_def MESSAGE_HEADER_SIZE_LENGTH_def who_X_def slice_to_def slice_from_def)
  have 2: "recv 3 ?s1 = (Inr [0x77, 0x68, 0x6F], ?s2)"
    using recv_buffered[of 3 ?s1] by simp
  have 3: "recv 128 ?s2 = (Inr (0x58 # replicate 127 0), ?s3)"
    using recv_buffered[of 128 ?s2] by simp
  have h: "int_from_bytes [4] False = 4" by (simp add: int_from_bytes_def)
  show ?thesis
    unfolding receive_message_def 1
    by (simp add: h MESSAGE_HEADER_SIZE_LENGTH_def 2 decode_who table_who 3 from_bytes_who_X
             del: from_bytes.simps bytes_decode.simps)
qed

text \<open>
  On \<^verbatim>\<open>who()\<close> the pass through the loop writes the answer \<^verbatim>\<open>who("A")\<close> of a server whose
  author is \<^verbatim>\<open>A\<close>, and the loop goes on.
\<close>

lemma receive_who_none:
  "receive_message \<lparr>buffer = [], inbound = [[4, 0x77, 0x68, 0x6F] @ replicate 128 0], outbound = []\<rparr>
   = (Inr (Some (WhoCommand None)), \<lparr>buffer = [], inbound = [], outbound = []\<rparr>)"
proof -
  let ?s1 = "\<lparr>buffer = 0x77 # 0x68 # 0x6F # replicate 128 0, inbound = [], outbound = []\<rparr>"
  let ?s2 = "\<lparr>buffer = replicate 128 0, inbound = [], outbound = []\<rparr>"
  let ?s3 = "\<lparr>buffer = [], inbound = [], outbound = []\<rparr>"
  have 1: "recv (int MESSAGE_HEADER_SIZE_LENGTH)
             \<lparr>buffer = [], inbound = [[4, 0x77, 0x68, 0x6F] @ replicate 128 0], outbound = []\<rparr>
           = (Inr [4], ?s1)"
    by (simp add: recv_def MESSAGE_HEADER_SIZE_LENGTH_def slice_to_def slice_from_def)
  have 2: "recv 3 ?s1 = (Inr [0x77, 0x68, 0x6F], ?s2)"
    using recv_buffered[of 3 ?s1] by simp
  have 3: "recv 128 ?s2 = (Inr (replicate 128 0), ?s3)"
    using recv_buffered[of 128 ?s2] by simp
  have h: "int_from_bytes [4] False = 4" by (simp add: int_from_bytes_def)
  have f: "from_bytes WhoCls (replicate 128 0) = Inr (WhoCommand None)"
    by (simp add: strip_nul_zeros)
  show ?thesis
    unfolding receive_message_def 1
    by (simp add: h MESSAGE_HEADER_SIZE_LENGTH_def 2 decode_who table_who 3 f
             del: from_bytes.simps bytes_decode.simps)
qed

lemma who_without_author_is_answered:
  "handle_step (SessionData_init [0x41])
     \<lparr>buffer = [], inbound = [[4, 0x77, 0x68, 0x6F] @ replicate 128 0], outbound = []\<rparr>
   = (Inr (), SessionData_init [0x41],
      \<lparr>buffer = [], inbound = [],
       outbound = [[4, 0x77, 0x68, 0x6F] @ 0x41 # replicate 127 0]\<rparr>)"
proof -
  have e: "str_encode UnicodeEncodeError (ascii ''who'') = Inr [0x77, 0x68, 0x6F]"
    by (simp add: ascii_def utf8_encode_char_def)
  have t: "to_bytes (WhoCommand (Some [0x41])) = Inr (0x41 # replicate 127 0)"
    by (simp add: utf8_encode_char_def ljust_nul_def)
  have i: "int_to_bytes 4 (Suc 0) False = Inr [4]" by (simp add: int_to_bytes_def)
  have s: "send_command (Some (WhoCommand (Some [0x41]))) \<lparr>buffer = [], inbound = [], outbound = []\<rparr>
           = (Inr (), \<lparr>buffer = [], inbound = [],
                      outbound = [[4, 0x77, 0x68, 0x6F] @ 0x41 # replicate 127 0]\<rparr>)"
    unfolding send_command_def
    by (simp add: e MESSAGE_HEADER_SIZE_LENGTH_def i t del: to_bytes.simps)
  have a: "author (SessionData_init [0x41]) = [0x41]" by (simp add: SessionData_init_def)
  show ?thesis
    unfolding handle_step_def receive_who_none by (simp add: a s)
qed

lemma handle_step_who_author:
  assumes "receive_message st = (Inr (Some (WhoCommand (Some a))), st1)" "a \<noteq> []"
  shows "handle_step sd st = (Inl AttributeError, sd, st1)"
  using assms by (simp add: handle_step_def send_command_def)

text \<open>
  C4 fails on the code. When the server receives \<^verbatim>\<open>who("X")\<close>, the command's execution
  returns \<^verbatim>\<open>None\<close>, \<^verbatim>\<open>_send_command\<close> raises \<^verbatim>\<open>AttributeError\<close> on it, nothing is written and the
  exception leaves the loop of \<^verbatim>\<open>handle_connection\<close>.
\<close>

theorem who_with_author_aborts_session:
  "handle_connection AUTHOR [who_X]
   = (Inl AttributeError, SessionData_init AUTHOR, \<lparr>buffer = [], inbound = [], outbound = []\<rparr>)"
proof -
  have "handle_step (SessionData_init AUTHOR) \<lparr>buffer = [], inbound = [who_X], outbound = []\<rparr>
        = (Inl AttributeError, SessionData_init AUTHOR, \<lparr>buffer = [], inbound = [], outbound = []\<rparr>)"
    unfolding handle_step_def receive_who_X by (simp add: send_command_def)
  moreover have "session_running (SessionData_init AUTHOR)" by (simp add: SessionData_init_def)
  ultimately show ?thesis
    unfolding handle_connection_def by (subst handle_loop.simps) simp
qed

end
